theory Spec2Isabelle
  imports Main "HOL-Library.Sublist"
begin

section \<open>The agent loop of ralph.sh and ralph.ps1\<close>

text \<open>
  The two scripts drive an external coding agent in a loop. Each pass through the loop
  body calls the agent once, captures its merged output in a variable and inspects that
  text with two pattern tests. The model takes the captured text of the n-th call
  (counted from 0) as \<open>outs n\<close>: the agent is an external process, and nothing but its
  output reaches the loop.

  The iteration counter is an integer, computed as each script computes it: bash in 64
  bits with wrap-around, PowerShell without a bound (an Int32 that overflows is widened).
  maxIterations is the number the script was given. ralph.sh takes any string of digits
  (line 40); ralph.ps1 takes an Int32 (line 14), and a value below one skips its loop
  as 0 does.

  The loop of ralph.sh can run for ever, so both loops are followed for a given number
  of passes, \<open>fuel\<close>: the result lists the passes made within that number and names the
  exit, or says that the script is still in its loop.
\<close>

subsection \<open>Pattern tests\<close>

text \<open>
  \<open>contains pat txt\<close>: the text has \<open>pat\<close> as a contiguous part. grep and -match look at
  the text line by line; no pattern of the scripts holds a line break, so a line
  contains the pattern exactly when the text does.
\<close>

fun contains :: "string \<Rightarrow> string \<Rightarrow> bool" where
  "contains pat [] = (pat = [])"
| "contains pat (c # cs) = (prefix pat (c # cs) \<or> contains pat cs)"

text \<open>
  ralph.sh line 311 and ralph.ps1 line 276 use the same regular expression, an
  alternation of six literal words; the list holds its alternatives.
\<close>

definition connection_pattern :: "string list" where
  "connection_pattern =
     [''ConnectError'', ''ETIMEDOUT'', ''ECONNRESET'', ''ENOTFOUND'',
      ''connection refused'', ''Connection refused'']"

definition completion_marker :: string where
  "completion_marker = ''<promise>COMPLETE</promise>''"

text \<open>\<open>grep -qE\<close> with an alternation, and \<open>grep -q\<close> with one literal: case-sensitive.\<close>

definition grep_qE :: "string list \<Rightarrow> string \<Rightarrow> bool" where
  "grep_qE alts txt = list_ex (\<lambda>p. contains p txt) alts"

definition grep_q :: "string \<Rightarrow> string \<Rightarrow> bool" where
  "grep_q pat txt = contains pat txt"

text \<open>
  PowerShell's \<open>-match\<close> ignores letter case (the case-sensitive operator is
  \<open>-cmatch\<close>). The model folds the letters A to Z; every other byte is compared as
  it is.
\<close>

definition to_lower :: "char \<Rightarrow> char" where
  "to_lower c =
     (case map_of (zip ''ABCDEFGHIJKLMNOPQRSTUVWXYZ'' ''abcdefghijklmnopqrstuvwxyz'') c of
        Some l \<Rightarrow> l
      | None \<Rightarrow> c)"

definition match_op :: "string list \<Rightarrow> string \<Rightarrow> bool" where
  "match_op alts txt =
     list_ex (\<lambda>p. contains (map to_lower p) (map to_lower txt)) alts"

subsection \<open>Integers of bash\<close>

text \<open>
  \<open>$((...))\<close> computes in 64-bit two's complement: \<open>int64 x\<close> is the value bash stores
  for the exact result \<open>x\<close>. The builtin \<open>[ a -le b ]\<close> reads both operands as 64-bit
  integers; it refuses an operand outside that range ("integer expression expected",
  status 2), and \<open>while\<close> takes that as false.
\<close>

definition int64 :: "int \<Rightarrow> int" where
  "int64 x = (x + 2 ^ 63) mod 2 ^ 64 - 2 ^ 63"

definition test_le :: "int \<Rightarrow> int \<Rightarrow> bool" where
  "test_le a b \<longleftrightarrow>
     - (2 ^ 63) \<le> a \<and> a < 2 ^ 63 \<and> - (2 ^ 63) \<le> b \<and> b < 2 ^ 63 \<and> a \<le> b"

subsection \<open>State, classification and exits\<close>

record vars =
  iteration :: int
  consecutive_errors :: nat

abbreviation MAX_RETRIES :: nat where "MAX_RETRIES \<equiv> 3"
abbreviation RETRY_DELAY :: nat where "RETRY_DELAY \<equiv> 10"

definition initial :: vars where
  "initial = \<lparr>iteration = 1, consecutive_errors = 0\<rparr>"

text \<open>The branch of the loop body that a pass takes.\<close>

datatype classification = TransientError | Completion | Continue

text \<open>
  The three places where a script ends once the loop has started:
  \<open>Succeeded\<close> is \<open>exit 0\<close> after "Ralph completed all tasks!",
  \<open>FailedTooManyErrors\<close> is \<open>exit 1\<close> after "Too many consecutive connection errors.
  Stopping.", and \<open>FailedMaxIterations\<close> is the \<open>exit 1\<close> behind the loop, after
  "Ralph reached max iterations (...) without completing all tasks.".
\<close>

datatype terminal = Succeeded | FailedTooManyErrors | FailedMaxIterations

fun exit_code :: "terminal \<Rightarrow> nat" where
  "exit_code Succeeded = 0"
| "exit_code FailedTooManyErrors = 1"
| "exit_code FailedMaxIterations = 1"

text \<open>The fixed leading words of the last message a script prints.\<close>

fun final_message :: "terminal \<Rightarrow> string" where
  "final_message Succeeded = ''Ralph completed all tasks!''"
| "final_message FailedTooManyErrors = ''Too many consecutive connection errors. Stopping.''"
| "final_message FailedMaxIterations = ''Ralph reached max iterations''"

text \<open>
  What one pass through the loop body did: the branch taken, the counters when the pass
  ends, the seconds it slept (none when it exits) and the exit it took, if any.
\<close>

record pass =
  verdict :: classification
  vars_after :: vars
  slept :: "nat option"
  exited :: "terminal option"

subsection \<open>ralph.sh, lines 296 to 350\<close>

definition sh_body :: "vars \<Rightarrow> string \<Rightarrow> pass" where
  "sh_body v OUTPUT =
     (if grep_qE connection_pattern OUTPUT then
        let CONSECUTIVE_ERRORS = consecutive_errors v + 1 in
        if CONSECUTIVE_ERRORS \<ge> MAX_RETRIES then
          \<lparr>verdict = TransientError,
           vars_after = v\<lparr>consecutive_errors := CONSECUTIVE_ERRORS\<rparr>,
           slept = None, exited = Some FailedTooManyErrors\<rparr>
        else
          \<lparr>verdict = TransientError,
           vars_after = v\<lparr>consecutive_errors := CONSECUTIVE_ERRORS\<rparr>,
           slept = Some (RETRY_DELAY * CONSECUTIVE_ERRORS), exited = None\<rparr>
      else if grep_q completion_marker OUTPUT then
        \<lparr>verdict = Completion, vars_after = v\<lparr>consecutive_errors := 0\<rparr>,
         slept = None, exited = Some Succeeded\<rparr>
      else
        \<lparr>verdict = Continue,
         vars_after = \<lparr>iteration = int64 (iteration v + 1), consecutive_errors = 0\<rparr>,
         slept = Some 2, exited = None\<rparr>)"

text \<open>
  The while loop, followed for at most \<open>fuel\<close> passes. \<open>n\<close> counts the agent calls made
  so far. The result lists the passes in order; its second part is the exit taken, or
  \<open>None\<close> when the script is still in the loop after \<open>fuel\<close> passes.
\<close>

fun sh_loop :: "nat \<Rightarrow> nat \<Rightarrow> (nat \<Rightarrow> string) \<Rightarrow> nat \<Rightarrow> vars \<Rightarrow> pass list \<times> terminal option" where
  "sh_loop 0 MAX_ITERATIONS outs n v = ([], None)"
| "sh_loop (Suc fuel) MAX_ITERATIONS outs n v =
     (if test_le (iteration v) (int MAX_ITERATIONS) then
        let p = sh_body v (outs n) in
        (case exited p of
           Some t \<Rightarrow> ([p], Some t)
         | None \<Rightarrow>
             let r = sh_loop fuel MAX_ITERATIONS outs (Suc n) (vars_after p)
             in (p # fst r, snd r))
      else ([], Some FailedMaxIterations))"

subsection \<open>ralph.ps1, lines 261 to 312\<close>

text \<open>
  \<open>$Iteration++\<close> on an Int32 at its largest value gives the next number as a Double,
  so the counter of ralph.ps1 never wraps; \<open>-le\<close> compares it with MaxIterations as
  numbers.
\<close>

definition ps_body :: "vars \<Rightarrow> string \<Rightarrow> pass" where
  "ps_body v Output =
     (if match_op connection_pattern Output then
        let ConsecutiveErrors = consecutive_errors v + 1 in
        if ConsecutiveErrors \<ge> MAX_RETRIES then
          \<lparr>verdict = TransientError,
           vars_after = v\<lparr>consecutive_errors := ConsecutiveErrors\<rparr>,
           slept = None, exited = Some FailedTooManyErrors\<rparr>
        else
          \<lparr>verdict = TransientError,
           vars_after = v\<lparr>consecutive_errors := ConsecutiveErrors\<rparr>,
           slept = Some (RETRY_DELAY * ConsecutiveErrors), exited = None\<rparr>
      else if match_op [completion_marker] Output then
        \<lparr>verdict = Completion, vars_after = v\<lparr>consecutive_errors := 0\<rparr>,
         slept = None, exited = Some Succeeded\<rparr>
      else
        \<lparr>verdict = Continue,
         vars_after = \<lparr>iteration = iteration v + 1, consecutive_errors = 0\<rparr>,
         slept = Some 2, exited = None\<rparr>)"

fun ps_loop :: "nat \<Rightarrow> nat \<Rightarrow> (nat \<Rightarrow> string) \<Rightarrow> nat \<Rightarrow> vars \<Rightarrow> pass list \<times> terminal option" where
  "ps_loop 0 MaxIterations outs n v = ([], None)"
| "ps_loop (Suc fuel) MaxIterations outs n v =
     (if iteration v \<le> int MaxIterations then
        let p = ps_body v (outs n) in
        (case exited p of
           Some t \<Rightarrow> ([p], Some t)
         | None \<Rightarrow>
             let r = ps_loop fuel MaxIterations outs (Suc n) (vars_after p)
             in (p # fst r, snd r))
      else ([], Some FailedMaxIterations))"

subsection \<open>Both scripts\<close>

datatype script = Bash | PowerShell

text \<open>
  Per script: the test for a connection error, the test for the completion signal, the
  test at the head of the loop, the step of the iteration counter and the loop body.
\<close>

fun conn_error :: "script \<Rightarrow> string \<Rightarrow> bool" where
  "conn_error Bash out = grep_qE connection_pattern out"
| "conn_error PowerShell out = match_op connection_pattern out"

fun completed :: "script \<Rightarrow> string \<Rightarrow> bool" where
  "completed Bash out = grep_q completion_marker out"
| "completed PowerShell out = match_op [completion_marker] out"

fun loop_test :: "script \<Rightarrow> nat \<Rightarrow> int \<Rightarrow> bool" where
  "loop_test Bash maxIterations i = test_le i (int maxIterations)"
| "loop_test PowerShell maxIterations i = (i \<le> int maxIterations)"

fun next_iteration :: "script \<Rightarrow> int \<Rightarrow> int" where
  "next_iteration Bash i = int64 (i + 1)"
| "next_iteration PowerShell i = i + 1"

fun body_of :: "script \<Rightarrow> vars \<Rightarrow> string \<Rightarrow> pass" where
  "body_of Bash = sh_body"
| "body_of PowerShell = ps_body"

text \<open>
  A run, followed for at most \<open>fuel\<close> passes: the loop entered with the counters of lines
  296 to 299 (261 to 264).
\<close>

fun run :: "script \<Rightarrow> nat \<Rightarrow> nat \<Rightarrow> (nat \<Rightarrow> string) \<Rightarrow> pass list \<times> terminal option" where
  "run Bash fuel maxIterations outs = sh_loop fuel maxIterations outs 0 initial"
| "run PowerShell fuel maxIterations outs = ps_loop fuel maxIterations outs 0 initial"

text \<open>
  The values of maxIterations for which a script counts its iterations without
  wrapping: below 2^63 - 1 for ralph.sh, and the Int32 values for ralph.ps1.
\<close>

fun in_range :: "script \<Rightarrow> nat \<Rightarrow> bool" where
  "in_range Bash maxIterations \<longleftrightarrow> maxIterations < 2 ^ 63 - 1"
| "in_range PowerShell maxIterations \<longleftrightarrow> maxIterations < 2 ^ 31"

text \<open>
  The transient-error signature in the words of the specification: a case-sensitive
  match of one of four error names, or of "connection refused" with a small or a
  capital first letter.
\<close>

definition spec_transient_signature :: "string \<Rightarrow> bool" where
  "spec_transient_signature out \<longleftrightarrow>
     contains ''ConnectError'' out \<or> contains ''ETIMEDOUT'' out \<or>
     contains ''ECONNRESET'' out \<or> contains ''ENOTFOUND'' out \<or>
     contains ''connection refused'' out \<or> contains ''Connection refused'' out"

subsection \<open>The loop over any tests and any counter\<close>

text \<open>
  The two loops differ in their pattern tests, in the test at the head of the loop and
  in the step of the iteration counter. \<open>body\<close> and \<open>loop\<close> take these as arguments; the
  loops of the scripts are shown to be instances below, and the properties of the
  control flow are proved once.
\<close>

definition body ::
  "(string \<Rightarrow> bool) \<Rightarrow> (string \<Rightarrow> bool) \<Rightarrow> (int \<Rightarrow> int) \<Rightarrow> vars \<Rightarrow> string \<Rightarrow> pass" where
  "body err fin inc v out =
     (if err out then
        let ce = consecutive_errors v + 1 in
        if ce \<ge> MAX_RETRIES then
          \<lparr>verdict = TransientError, vars_after = v\<lparr>consecutive_errors := ce\<rparr>,
           slept = None, exited = Some FailedTooManyErrors\<rparr>
        else
          \<lparr>verdict = TransientError, vars_after = v\<lparr>consecutive_errors := ce\<rparr>,
           slept = Some (RETRY_DELAY * ce), exited = None\<rparr>
      else if fin out then
        \<lparr>verdict = Completion, vars_after = v\<lparr>consecutive_errors := 0\<rparr>,
         slept = None, exited = Some Succeeded\<rparr>
      else
        \<lparr>verdict = Continue,
         vars_after = \<lparr>iteration = inc (iteration v), consecutive_errors = 0\<rparr>,
         slept = Some 2, exited = None\<rparr>)"

fun loop ::
  "(string \<Rightarrow> bool) \<Rightarrow> (string \<Rightarrow> bool) \<Rightarrow> (int \<Rightarrow> bool) \<Rightarrow> (int \<Rightarrow> int) \<Rightarrow> nat \<Rightarrow> (nat \<Rightarrow> string)
     \<Rightarrow> nat \<Rightarrow> vars \<Rightarrow> pass list \<times> terminal option" where
  "loop err fin ok inc 0 outs n v = ([], None)"
| "loop err fin ok inc (Suc fuel) outs n v =
     (if ok (iteration v) then
        let p = body err fin inc v (outs n) in
        (case exited p of
           Some t \<Rightarrow> ([p], Some t)
         | None \<Rightarrow>
             let r = loop err fin ok inc fuel outs (Suc n) (vars_after p)
             in (p # fst r, snd r))
      else ([], Some FailedMaxIterations))"

text \<open>
  The counters at the head of the loop before pass \<open>j\<close> (counted from 0), when the
  passes before it did not exit.
\<close>

fun state_before ::
  "(string \<Rightarrow> bool) \<Rightarrow> (string \<Rightarrow> bool) \<Rightarrow> (int \<Rightarrow> int) \<Rightarrow> (nat \<Rightarrow> string) \<Rightarrow> nat \<Rightarrow> vars" where
  "state_before err fin inc outs 0 = initial"
| "state_before err fin inc outs (Suc j) =
     vars_after (body err fin inc (state_before err fin inc outs j) (outs j))"

subsection \<open>Agents for concrete runs\<close>

text \<open>An endless sequence of outputs: the texts of a list, then one text for ever.\<close>

definition agent_of :: "string list \<Rightarrow> string \<Rightarrow> nat \<Rightarrow> string" where
  "agent_of xs d n = (if n < length xs then xs ! n else d)"

section \<open>The scripts are instances of the loop\<close>

declare loop.simps(2) [simp del] sh_loop.simps(2) [simp del] ps_loop.simps(2) [simp del]

lemma sh_body_eq:
  "sh_body = body (grep_qE connection_pattern) (grep_q completion_marker) (\<lambda>i. int64 (i + 1))"
  by (intro ext) (simp add: sh_body_def body_def)

lemma ps_body_eq:
  "ps_body = body (match_op connection_pattern) (match_op [completion_marker]) (\<lambda>i. i + 1)"
  by (intro ext) (simp add: ps_body_def body_def)

lemma sh_loop_eq:
  "sh_loop fuel m outs n v =
     loop (grep_qE connection_pattern) (grep_q completion_marker) (\<lambda>i. test_le i (int m))
       (\<lambda>i. int64 (i + 1)) fuel outs n v"
  by (induction fuel arbitrary: n v)
     (simp_all add: sh_loop.simps(2) loop.simps(2) sh_body_eq Let_def split: option.splits)

lemma ps_loop_eq:
  "ps_loop fuel m outs n v =
     loop (match_op connection_pattern) (match_op [completion_marker]) (\<lambda>i. i \<le> int m)
       (\<lambda>i. i + 1) fuel outs n v"
  by (induction fuel arbitrary: n v)
     (simp_all add: ps_loop.simps(2) loop.simps(2) ps_body_eq Let_def split: option.splits)

lemma tests_of_script:
  "conn_error Bash = grep_qE connection_pattern"
  "conn_error PowerShell = match_op connection_pattern"
  "completed Bash = grep_q completion_marker"
  "completed PowerShell = match_op [completion_marker]"
  "loop_test Bash m = (\<lambda>i. test_le i (int m))"
  "loop_test PowerShell m = (\<lambda>i. i \<le> int m)"
  "next_iteration Bash = (\<lambda>i. int64 (i + 1))"
  "next_iteration PowerShell = (\<lambda>i. i + 1)"
  by (simp_all add: fun_eq_iff)

lemma body_of_eq: "body_of s = body (conn_error s) (completed s) (next_iteration s)"
  by (cases s) (simp_all add: tests_of_script sh_body_eq ps_body_eq)

lemma run_eq:
  "run s fuel m outs =
     loop (conn_error s) (completed s) (loop_test s m) (next_iteration s) fuel outs 0 initial"
  by (cases s) (simp_all add: tests_of_script sh_loop_eq ps_loop_eq)

section \<open>Unfolding the loop\<close>

lemma loop_stop:
  "\<not> ok (iteration v) \<Longrightarrow> loop err fin ok inc (Suc f) outs n v = ([], Some FailedMaxIterations)"
  by (simp add: loop.simps(2))

lemma loop_exit:
  "ok (iteration v) \<Longrightarrow> exited (body err fin inc v (outs n)) = Some t \<Longrightarrow>
   loop err fin ok inc (Suc f) outs n v = ([body err fin inc v (outs n)], Some t)"
  by (simp add: loop.simps(2))

lemma loop_next:
  "ok (iteration v) \<Longrightarrow> exited (body err fin inc v (outs n)) = None \<Longrightarrow>
   loop err fin ok inc (Suc f) outs n v =
     (body err fin inc v (outs n) #
        fst (loop err fin ok inc f outs (Suc n) (vars_after (body err fin inc v (outs n)))),
      snd (loop err fin ok inc f outs (Suc n) (vars_after (body err fin inc v (outs n)))))"
  by (simp add: loop.simps(2) Let_def)

lemma loop_nonempty:
  assumes "fst (loop err fin ok inc fuel outs n v) \<noteq> []"
  shows "0 < fuel" and "ok (iteration v)"
    and "hd (fst (loop err fin ok inc fuel outs n v)) = body err fin inc v (outs n)"
proof -
  from assms obtain f where f: "fuel = Suc f" by (cases fuel) simp_all
  then show "0 < fuel" by simp
  show ok: "ok (iteration v)"
  proof (rule ccontr)
    assume "\<not> ok (iteration v)"
    with assms f show False by (simp add: loop_stop)
  qed
  show "hd (fst (loop err fin ok inc fuel outs n v)) = body err fin inc v (outs n)"
    unfolding f
    by (cases "exited (body err fin inc v (outs n))") (simp_all add: loop_exit loop_next ok)
qed

lemma loop_two:
  assumes "2 \<le> length (fst (loop err fin ok inc fuel outs n v))"
  shows "exited (body err fin inc v (outs n)) = None"
    and "tl (fst (loop err fin ok inc fuel outs n v)) =
           fst (loop err fin ok inc (fuel - 1) outs (Suc n) (vars_after (body err fin inc v (outs n))))"
    and "snd (loop err fin ok inc fuel outs n v) =
           snd (loop err fin ok inc (fuel - 1) outs (Suc n) (vars_after (body err fin inc v (outs n))))"
proof -
  from assms have ne: "fst (loop err fin ok inc fuel outs n v) \<noteq> []" by auto
  from loop_nonempty(1)[OF ne] obtain f where f: "fuel = Suc f" by (cases fuel) simp_all
  note ok = loop_nonempty(2)[OF ne]
  show ex: "exited (body err fin inc v (outs n)) = None"
  proof (cases "exited (body err fin inc v (outs n))")
    case (Some t)
    with ok assms f show ?thesis by (simp add: loop_exit)
  qed simp
  from loop_next[where ok=ok and v=v and outs=outs and n=n and f=f, OF ok ex]
  show "tl (fst (loop err fin ok inc fuel outs n v)) =
           fst (loop err fin ok inc (fuel - 1) outs (Suc n) (vars_after (body err fin inc v (outs n))))"
    and "snd (loop err fin ok inc fuel outs n v) =
           snd (loop err fin ok inc (fuel - 1) outs (Suc n) (vars_after (body err fin inc v (outs n))))"
    by (simp_all add: f)
qed

lemma loop_suffix:
  assumes "j < length (fst (loop err fin ok inc fuel outs 0 initial))"
  shows "drop j (fst (loop err fin ok inc fuel outs 0 initial)) =
           fst (loop err fin ok inc (fuel - j) outs j (state_before err fin inc outs j)) \<and>
         snd (loop err fin ok inc fuel outs 0 initial) =
           snd (loop err fin ok inc (fuel - j) outs j (state_before err fin inc outs j))"
  using assms
proof (induction j)
  case 0
  show ?case by simp
next
  case (Suc j)
  let ?ps = "fst (loop err fin ok inc fuel outs 0 initial)"
  let ?v = "state_before err fin inc outs j"
  from Suc have IH: "drop j ?ps = fst (loop err fin ok inc (fuel - j) outs j ?v)"
    "snd (loop err fin ok inc fuel outs 0 initial) = snd (loop err fin ok inc (fuel - j) outs j ?v)"
    by simp_all
  have "2 \<le> length (drop j ?ps)" using Suc.prems by simp
  with IH have len: "2 \<le> length (fst (loop err fin ok inc (fuel - j) outs j ?v))" by simp
  have "drop (Suc j) ?ps = tl (drop j ?ps)" by (simp add: drop_Suc tl_drop)
  with loop_two(2,3)[OF len] IH show ?case by simp
qed

lemma pass_at:
  assumes "j < length (fst (loop err fin ok inc fuel outs 0 initial))"
  shows "fst (loop err fin ok inc fuel outs 0 initial) ! j =
           body err fin inc (state_before err fin inc outs j) (outs j)"
    and "ok (iteration (state_before err fin inc outs j))"
proof -
  let ?ps = "fst (loop err fin ok inc fuel outs 0 initial)"
  let ?v = "state_before err fin inc outs j"
  from loop_suffix[OF assms]
  have d: "drop j ?ps = fst (loop err fin ok inc (fuel - j) outs j ?v)" by simp
  from assms have "drop j ?ps \<noteq> []" by simp
  with d have ne: "fst (loop err fin ok inc (fuel - j) outs j ?v) \<noteq> []" by simp
  from loop_nonempty(2)[OF ne] show "ok (iteration ?v)" .
  from loop_nonempty(3)[OF ne] d assms show "?ps ! j = body err fin inc ?v (outs j)"
    by (simp add: hd_drop_conv_nth[symmetric])
qed

lemma exit_last:
  assumes "j < length (fst (loop err fin ok inc fuel outs 0 initial))"
    and "exited (fst (loop err fin ok inc fuel outs 0 initial) ! j) = Some t"
  shows "length (fst (loop err fin ok inc fuel outs 0 initial)) = Suc j"
    and "snd (loop err fin ok inc fuel outs 0 initial) = Some t"
proof -
  let ?ps = "fst (loop err fin ok inc fuel outs 0 initial)"
  let ?v = "state_before err fin inc outs j"
  note d = loop_suffix[OF assms(1)]
  from assms(1) d have ne: "fst (loop err fin ok inc (fuel - j) outs j ?v) \<noteq> []" by auto
  from loop_nonempty(1)[OF ne] obtain f where f: "fuel - j = Suc f" by (cases "fuel - j") simp_all
  from pass_at[OF assms(1)] assms(2) have ok: "ok (iteration ?v)"
    and ex: "exited (body err fin inc ?v (outs j)) = Some t" by simp_all
  from loop_exit[where ok=ok and v="state_before err fin inc outs j" and outs=outs and n=j and f=f, OF ok ex] d f
  have e: "drop j ?ps = [body err fin inc ?v (outs j)]"
    and "snd (loop err fin ok inc fuel outs 0 initial) = Some t" by simp_all
  then show "snd (loop err fin ok inc fuel outs 0 initial) = Some t" by simp
  from e have "length (drop j ?ps) = 1" by simp
  with assms(1) show "length ?ps = Suc j" by simp
qed

lemma no_exit_last:
  assumes "Suc j = length (fst (loop err fin ok inc fuel outs 0 initial))"
    and "exited (fst (loop err fin ok inc fuel outs 0 initial) ! j) = None"
  shows "snd (loop err fin ok inc fuel outs 0 initial) = None \<or>
         snd (loop err fin ok inc fuel outs 0 initial) = Some FailedMaxIterations"
proof -
  let ?ps = "fst (loop err fin ok inc fuel outs 0 initial)"
  let ?v = "state_before err fin inc outs j"
  let ?p = "body err fin inc ?v (outs j)"
  from assms(1) have j: "j < length ?ps" by simp
  note d = loop_suffix[OF j]
  from j d have ne: "fst (loop err fin ok inc (fuel - j) outs j ?v) \<noteq> []" by auto
  from loop_nonempty(1)[OF ne] obtain f where f: "fuel - j = Suc f" by (cases "fuel - j") simp_all
  from pass_at[OF j] assms(2) have ok: "ok (iteration ?v)" and ex: "exited ?p = None" by simp_all
  let ?r = "loop err fin ok inc f outs (Suc j) (vars_after ?p)"
  from loop_next[where ok=ok and v="state_before err fin inc outs j" and outs=outs and n=j and f=f, OF ok ex] d f
  have e: "drop j ?ps = ?p # fst ?r"
    and s: "snd (loop err fin ok inc fuel outs 0 initial) = snd ?r" by simp_all
  from e have "length (drop j ?ps) = Suc (length (fst ?r))" by simp
  with assms(1)[symmetric] have emp: "fst ?r = []" by simp
  have "snd ?r = None \<or> snd ?r = Some FailedMaxIterations"
  proof (cases f)
    case 0
    then show ?thesis by simp
  next
    case (Suc f')
    show ?thesis
    proof (cases "ok (iteration (vars_after ?p))")
      case True
      then have "fst ?r \<noteq> []" unfolding Suc
        by (cases "exited (body err fin inc (vars_after ?p) (outs (Suc j)))")
           (simp_all add: loop_exit loop_next)
      with emp show ?thesis by simp
    next
      case False
      then show ?thesis unfolding Suc by (simp add: loop_stop)
    qed
  qed
  with s show ?thesis by simp
qed

section \<open>One pass, field by field\<close>

lemma body_errors_after:
  "consecutive_errors (vars_after (body err fin inc v out)) =
     (if err out then consecutive_errors v + 1 else 0)"
  by (simp add: body_def Let_def)

lemma body_iteration_after:
  "iteration (vars_after (body err fin inc v out)) =
     (if err out \<or> fin out then iteration v else inc (iteration v))"
  by (simp add: body_def Let_def)

lemma body_verdict:
  "verdict (body err fin inc v out) =
     (if err out then TransientError else if fin out then Completion else Continue)"
  by (simp add: body_def Let_def)

lemma body_exited:
  "exited (body err fin inc v out) =
     (if err out then (if MAX_RETRIES \<le> consecutive_errors v + 1 then Some FailedTooManyErrors else None)
      else if fin out then Some Succeeded else None)"
  by (simp add: body_def Let_def)

lemma body_slept:
  "slept (body err fin inc v out) =
     (if err out then
        (if MAX_RETRIES \<le> consecutive_errors v + 1 then None
         else Some (RETRY_DELAY * (consecutive_errors v + 1)))
      else if fin out then None else Some 2)"
  by (simp add: body_def Let_def)

section \<open>The integers of the two scripts\<close>

lemma two_64: "(2::int) ^ 64 = 2 * 2 ^ 63"
  by simp

lemma int64_small:
  assumes "- (2 ^ 63) \<le> x" and "x < 2 ^ 63"
  shows "int64 x = x"
proof -
  define M :: int where "M = 2 ^ 63"
  from assms have "0 \<le> x + M" and "x + M < 2 * M" by (simp_all add: M_def)
  then have "(x + M) mod (2 * M) = x + M" by (rule mod_pos_pos_trivial)
  then show ?thesis by (simp only: int64_def two_64 M_def[symmetric]) simp?
qed

lemma int64_range: "- (2 ^ 63) \<le> int64 x" "int64 x < 2 ^ 63"
proof -
  define M :: int where "M = 2 ^ 63"
  have M: "0 < M" by (simp add: M_def)
  then have "0 \<le> (x + M) mod (2 * M)" and "(x + M) mod (2 * M) < 2 * M"
    by simp_all
  then have "- M \<le> (x + M) mod (2 * M) - M" and "(x + M) mod (2 * M) - M < M" by simp_all
  then show "- (2 ^ 63) \<le> int64 x" "int64 x < 2 ^ 63"
    by (simp_all only: int64_def two_64 M_def[symmetric])
qed

text \<open>
  Counting from 1 up to maxIterations: within the range of a script, the test at the head
  of the loop holds up to maxIterations and fails behind it, and the step adds one.
\<close>

lemma counts_in_range:
  assumes "in_range s m"
  shows "1 \<le> i \<Longrightarrow> i \<le> int m \<Longrightarrow> loop_test s m i \<and> next_iteration s i = i + 1"
    and "\<not> loop_test s m (int m + 1)"
proof -
  define M :: int where "M = 2 ^ 63"
  have bash: "int m < M - 1" if "s = Bash"
  proof -
    from assms that have "m < 2 ^ 63 - 1" by simp
    then have "int m < int (2 ^ 63 - 1)" by (simp only: of_nat_less_iff)
    also have "int (2 ^ 63 - 1) = M - 1" by (simp add: M_def)
    finally show ?thesis .
  qed
  show "\<not> loop_test s m (int m + 1)"
    by (cases s) (simp_all add: test_le_def)
  assume i: "1 \<le> i" "i \<le> int m"
  show "loop_test s m i \<and> next_iteration s i = i + 1"
  proof (cases s)
    case Bash
    from bash[OF Bash] i have r: "- M \<le> i" "i < M" "- M \<le> int m" "int m < M"
      "- M \<le> i + 1" "i + 1 < M" by (simp_all add: M_def)
    from r(5,6) have "int64 (i + 1) = i + 1" unfolding M_def by (rule int64_small)
    moreover from r(1-4) i have "test_le i (int m)" unfolding test_le_def M_def by simp
    ultimately show ?thesis using Bash by simp
  next
    case PowerShell
    with i show ?thesis by simp
  qed
qed

section \<open>Passes of a run\<close>

lemma run_pass_at:
  assumes "j < length (fst (run s fuel m outs))"
  shows "fst (run s fuel m outs) ! j =
           body (conn_error s) (completed s) (next_iteration s)
             (state_before (conn_error s) (completed s) (next_iteration s) outs j) (outs j)"
    and "loop_test s m (iteration (state_before (conn_error s) (completed s) (next_iteration s) outs j))"
  using assms
    pass_at[of j "conn_error s" "completed s" "loop_test s m" "next_iteration s" fuel outs]
  by (simp_all add: run_eq)

lemma run_exit_last:
  assumes "j < length (fst (run s fuel m outs))" and "exited (fst (run s fuel m outs) ! j) = Some t"
  shows "length (fst (run s fuel m outs)) = Suc j" and "snd (run s fuel m outs) = Some t"
  using assms
    exit_last[of j "conn_error s" "completed s" "loop_test s m" "next_iteration s" fuel outs t]
  by (simp_all add: run_eq)

lemma run_no_exit_last:
  assumes "Suc j = length (fst (run s fuel m outs))" and "exited (fst (run s fuel m outs) ! j) = None"
  shows "snd (run s fuel m outs) = None \<or> snd (run s fuel m outs) = Some FailedMaxIterations"
  using assms
    no_exit_last[of j "conn_error s" "completed s" "loop_test s m" "next_iteration s" fuel outs]
  by (simp add: run_eq)

lemma errors_streak:
  "i < consecutive_errors (state_before err fin inc outs j) \<Longrightarrow> i < j \<and> err (outs (j - Suc i))"
proof (induction j arbitrary: i)
  case 0
  then show ?case by (simp add: initial_def)
next
  case (Suc j)
  from Suc.prems have e: "err (outs j)"
    and b: "i < Suc (consecutive_errors (state_before err fin inc outs j))"
    by (simp_all add: body_errors_after split: if_splits)
  show ?case
  proof (cases i)
    case 0
    with e show ?thesis by simp
  next
    case (Suc i')
    with b have "i' < consecutive_errors (state_before err fin inc outs j)" by simp
    from Suc.IH[OF this] Suc show ?thesis by simp
  qed
qed

section \<open>Runs that count\<close>

lemma all_continue:
  assumes "\<And>k. \<not> err (outs k)" and "\<And>k. \<not> fin (outs k)"
    and cnt: "\<And>i. 1 \<le> i \<Longrightarrow> i \<le> int m \<Longrightarrow> ok i \<and> inc i = i + 1"
    and stop: "\<not> ok (int m + 1)"
    and "1 \<le> iteration v" and "iteration v \<le> int m + 1"
    and "nat (int m + 1 - iteration v) < fuel"
  shows "loop err fin ok inc fuel outs n v =
     (map (\<lambda>i. \<lparr>verdict = Continue,
                vars_after = \<lparr>iteration = i + 1, consecutive_errors = 0\<rparr>,
                slept = Some 2, exited = None\<rparr>) [iteration v .. int m],
      Some FailedMaxIterations)"
  using assms(5-7)
proof (induction fuel arbitrary: n v)
  case 0
  then show ?case by simp
next
  case (Suc f)
  show ?case
  proof (cases "iteration v \<le> int m")
    case False
    with Suc.prems(2) have e: "iteration v = int m + 1" by simp
    with stop have "\<not> ok (iteration v)" by simp
    then show ?thesis by (simp add: loop_stop e)
  next
    case True
    from cnt[OF Suc.prems(1) True] have ok: "ok (iteration v)"
      and inc: "inc (iteration v) = iteration v + 1" by simp_all
    let ?p = "body err fin inc v (outs n)"
    have p: "?p = \<lparr>verdict = Continue,
                   vars_after = \<lparr>iteration = iteration v + 1, consecutive_errors = 0\<rparr>,
                   slept = Some 2, exited = None\<rparr>"
      using assms(1,2) inc by (simp add: body_def)
    then have ex: "exited ?p = None" by simp
    have "loop err fin ok inc f outs (Suc n) (vars_after ?p) =
       (map (\<lambda>i. \<lparr>verdict = Continue,
                vars_after = \<lparr>iteration = i + 1, consecutive_errors = 0\<rparr>,
                slept = Some 2, exited = None\<rparr>) [iteration (vars_after ?p) .. int m],
        Some FailedMaxIterations)"
      using True Suc.prems p by (intro Suc.IH) simp_all
    moreover have "[iteration v .. int m] = iteration v # [iteration v + 1 .. int m]"
      using True by (simp add: upto_rec1)
    ultimately show ?thesis
      using loop_next[where ok=ok and v=v and outs=outs and n=n and f=f, OF ok ex] p by simp
  qed
qed

lemma loop_bound:
  assumes cnt: "\<And>i. 1 \<le> i \<Longrightarrow> i \<le> int m \<Longrightarrow> ok i \<and> inc i = i + 1"
    and stop: "\<not> ok (int m + 1)"
    and "consecutive_errors v < MAX_RETRIES"
    and "1 \<le> iteration v" and "iteration v \<le> int m + 1"
    and "3 * nat (int m + 1 - iteration v) - consecutive_errors v < fuel"
  shows "snd (loop err fin ok inc fuel outs n v) \<noteq> None \<and>
         length (fst (loop err fin ok inc fuel outs n v))
           \<le> 3 * nat (int m + 1 - iteration v) - consecutive_errors v"
  using assms(3-6)
proof (induction fuel arbitrary: n v)
  case 0
  then show ?case by simp
next
  case (Suc f)
  show ?case
  proof (cases "iteration v \<le> int m")
    case False
    with Suc.prems(3) have e: "iteration v = int m + 1" by simp
    with stop have "\<not> ok (iteration v)" by simp
    then show ?thesis by (simp add: loop_stop)
  next
    case True
    from cnt[OF Suc.prems(2) True] have ok: "ok (iteration v)"
      and inc: "inc (iteration v) = iteration v + 1" by simp_all
    define d where "d = nat (int m - iteration v)"
    from True have d: "nat (int m + 1 - iteration v) = Suc d" by (simp add: d_def)
    let ?p = "body err fin inc v (outs n)"
    show ?thesis
    proof (cases "exited ?p")
      case (Some t)
      with ok Suc.prems(1) d show ?thesis by (simp add: loop_exit)
    next
      case None
      let ?v = "vars_after ?p"
      have c: "consecutive_errors ?v < MAX_RETRIES"
        using None by (simp add: body_def Let_def split: if_splits)
      have i1: "1 \<le> iteration ?v" and i2: "iteration ?v \<le> int m + 1"
        using Suc.prems(2) True inc by (simp_all add: body_iteration_after)
      have less: "3 * nat (int m + 1 - iteration ?v) - consecutive_errors ?v
                   < 3 * nat (int m + 1 - iteration v) - consecutive_errors v"
      proof (cases "err (outs n)")
        case True
        with None Suc.prems(1) d show ?thesis
          by (simp add: body_errors_after body_iteration_after body_exited split: if_splits)
      next
        case False
        with None have "iteration ?v = iteration v + 1" and "consecutive_errors ?v = 0"
          by (simp_all add: body_errors_after body_iteration_after body_exited inc split: if_splits)
        moreover have "nat (int m + 1 - (iteration v + 1)) = d" by (simp add: d_def)
        ultimately show ?thesis using Suc.prems(1) d by simp
      qed
      with Suc.prems(4) have f: "3 * nat (int m + 1 - iteration ?v) - consecutive_errors ?v < f"
        by simp
      from Suc.IH[OF c i1 i2 f, of "Suc n"] less
        loop_next[where ok=ok and v=v and outs=outs and n=n and f=f, OF ok None]
      show ?thesis by simp
    qed
  qed
qed

lemma runs_on:
  assumes "\<And>k. \<not> err (outs k)" and "\<And>k. \<not> fin (outs k)"
    and inv: "\<And>i. P i \<Longrightarrow> ok i \<and> P (inc i)"
    and "P (iteration v)"
  shows "length (fst (loop err fin ok inc fuel outs n v)) = fuel \<and>
         snd (loop err fin ok inc fuel outs n v) = None"
  using assms(4)
proof (induction fuel arbitrary: n v)
  case 0
  show ?case by simp
next
  case (Suc f)
  from inv[OF Suc.prems] have ok: "ok (iteration v)" and P: "P (inc (iteration v))" by simp_all
  let ?p = "body err fin inc v (outs n)"
  have ex: "exited ?p = None" and it: "iteration (vars_after ?p) = inc (iteration v)"
    using assms(1,2) by (simp_all add: body_def)
  from P it have "P (iteration (vars_after ?p))" by simp
  from Suc.IH[OF this, of "Suc n"]
    loop_next[where ok=ok and v=v and outs=outs and n=n and f=f, OF ok ex]
  show ?case by simp
qed

lemma next_pass:
  assumes "j < length (fst (loop err fin ok inc fuel outs 0 initial))"
    and "exited (fst (loop err fin ok inc fuel outs 0 initial) ! j) = None"
    and "ok (iteration (vars_after (fst (loop err fin ok inc fuel outs 0 initial) ! j)))"
    and "Suc j < fuel"
  shows "Suc j < length (fst (loop err fin ok inc fuel outs 0 initial))"
proof -
  let ?ps = "fst (loop err fin ok inc fuel outs 0 initial)"
  let ?v = "state_before err fin inc outs j"
  let ?p = "body err fin inc ?v (outs j)"
  note d = loop_suffix[OF assms(1)]
  define f where "f = fuel - j - 2"
  from assms(4) have f: "fuel - j = Suc (Suc f)" unfolding f_def by arith
  from pass_at[OF assms(1)] assms(2,3) have ok: "ok (iteration ?v)" and ex: "exited ?p = None"
    and ok': "ok (iteration (vars_after ?p))" by simp_all
  let ?r = "loop err fin ok inc (Suc f) outs (Suc j) (vars_after ?p)"
  from loop_next[where ok=ok and v="state_before err fin inc outs j" and outs=outs and n=j
      and f="Suc f", OF ok ex] d f
  have e: "drop j ?ps = ?p # fst ?r" by simp
  from ok' have "fst ?r \<noteq> []"
    by (cases "exited (body err fin inc (vars_after ?p) (outs (Suc j)))")
       (simp_all add: loop_exit loop_next)
  with e have "2 \<le> length (drop j ?ps)" by (cases "fst ?r") simp_all
  then show ?thesis by simp
qed

section \<open>The tests of the two scripts\<close>

text \<open>
  The tests of ralph.sh are those of the specification; the tests of ralph.ps1 pass
  every text that those of ralph.sh pass, and more.
\<close>

lemma bash_tests:
  "conn_error Bash out = spec_transient_signature out"
  "completed Bash out = contains completion_marker out"
  by (simp_all add: grep_qE_def grep_q_def connection_pattern_def spec_transient_signature_def)

lemma bash_classification:
  "verdict (body_of Bash v out) =
     (if spec_transient_signature out then TransientError
      else if contains ''<promise>COMPLETE</promise>'' out then Completion
      else Continue)"
  by (simp add: sh_body_def grep_qE_def grep_q_def connection_pattern_def completion_marker_def
        spec_transient_signature_def)

lemma contains_iff: "contains pat txt \<longleftrightarrow> (\<exists>pre post. txt = pre @ pat @ post)"
proof (induction "txt")
  case Nil
  then show ?case by auto
next
  case (Cons c cs)
  show ?case
  proof
    assume "contains pat (c # cs)"
    then consider "prefix pat (c # cs)" | "contains pat cs" by auto
    then show "\<exists>pre post. c # cs = pre @ pat @ post"
    proof cases
      case 1
      then obtain post where "c # cs = pat @ post" by (auto simp: prefix_def)
      then have "c # cs = [] @ pat @ post" by simp
      then show ?thesis by blast
    next
      case 2
      with Cons obtain pre post where "cs = pre @ pat @ post" by auto
      then have "c # cs = (c # pre) @ pat @ post" by simp
      then show ?thesis by blast
    qed
  next
    assume "\<exists>pre post. c # cs = pre @ pat @ post"
    then obtain pre post where e: "c # cs = pre @ pat @ post" by blast
    show "contains pat (c # cs)"
    proof (cases pre)
      case Nil
      with e have "prefix pat (c # cs)" by (simp add: prefix_def)
      then show ?thesis by simp
    next
      case (Cons a pre')
      with e have "cs = pre' @ pat @ post" by simp
      with Cons.IH show ?thesis by auto
    qed
  qed
qed

lemma contains_map: "contains pat txt \<Longrightarrow> contains (map f pat) (map f txt)"
  by (auto simp: contains_iff) (metis map_append)

lemma powershell_matches_more:
  "conn_error Bash out \<Longrightarrow> conn_error PowerShell out"
  "completed Bash out \<Longrightarrow> completed PowerShell out"
  by (auto simp: grep_qE_def grep_q_def match_op_def list_ex_iff intro: contains_map)

section \<open>Concrete outputs and runs\<close>

lemma sh_tests_ok: "\<not> grep_qE connection_pattern ''ok''" "\<not> grep_q completion_marker ''ok''"
  by (simp_all add: grep_qE_def grep_q_def connection_pattern_def completion_marker_def)

lemma sh_tests_errors:
  "grep_qE connection_pattern ''ECONNRESET''"
  "grep_qE connection_pattern ''ETIMEDOUT''"
  "grep_qE connection_pattern ''ENOTFOUND''"
  by (simp_all add: grep_qE_def connection_pattern_def)

lemma sh_tests_marker:
  "\<not> grep_qE connection_pattern ''<promise>COMPLETE</promise>''"
  "grep_q completion_marker ''<promise>COMPLETE</promise>''"
  "\<not> grep_qE connection_pattern ''connectError <promise>COMPLETE</promise>''"
  "grep_q completion_marker ''connectError <promise>COMPLETE</promise>''"
  by (simp_all add: grep_qE_def grep_q_def connection_pattern_def completion_marker_def)

lemma sh_tests_lower:
  "\<not> grep_qE connection_pattern ''connectError''"
  "\<not> grep_q completion_marker ''connectError''"
  "\<not> grep_qE connection_pattern ''<promise>complete</promise>''"
  "\<not> grep_q completion_marker ''<promise>complete</promise>''"
  by (simp_all add: grep_qE_def grep_q_def connection_pattern_def completion_marker_def)

lemma signature_of_texts:
  "\<not> spec_transient_signature ''ok''"
  "\<not> spec_transient_signature ''connectError''"
  "\<not> spec_transient_signature ''<promise>complete</promise>''"
  "\<not> spec_transient_signature ''connectError <promise>COMPLETE</promise>''"
  by (simp_all add: spec_transient_signature_def)

lemma marker_in_texts:
  "\<not> contains completion_marker ''ok''"
  "\<not> contains completion_marker ''connectError''"
  "\<not> contains completion_marker ''<promise>complete</promise>''"
  "contains completion_marker ''connectError <promise>COMPLETE</promise>''"
  by (simp_all add: completion_marker_def)

lemma match_op_lowered:
  "match_op alts txt = list_ex (\<lambda>p. contains p (map to_lower txt)) (map (map to_lower) alts)"
  by (simp add: match_op_def list_ex_iff)

lemma lowered_connection_pattern:
  "map (map to_lower) connection_pattern =
     [''connecterror'', ''etimedout'', ''econnreset'', ''enotfound'',
      ''connection refused'', ''connection refused'']"
  by (simp add: to_lower_def connection_pattern_def)

lemma lowered_completion_marker:
  "map (map to_lower) [completion_marker] = [''<promise>complete</promise>'']"
  by (simp add: to_lower_def completion_marker_def)

lemma lowered_texts:
  "map to_lower ''connectError'' = ''connecterror''"
  "map to_lower ''ECONNRESET'' = ''econnreset''"
  "map to_lower ''<promise>complete</promise>'' = ''<promise>complete</promise>''"
  "map to_lower ''ECONNRESET <promise>COMPLETE</promise>'' = ''econnreset <promise>complete</promise>''"
  "map to_lower ''connectError <promise>COMPLETE</promise>'' = ''connecterror <promise>complete</promise>''"
  by (simp_all add: to_lower_def)

lemma ps_tests_lower:
  "match_op connection_pattern ''connectError''"
  "match_op connection_pattern ''ECONNRESET''"
  "\<not> match_op connection_pattern ''<promise>complete</promise>''"
  "match_op [completion_marker] ''<promise>complete</promise>''"
  "match_op connection_pattern ''connectError <promise>COMPLETE</promise>''"
  unfolding match_op_lowered lowered_connection_pattern lowered_completion_marker lowered_texts
  by simp_all

lemma ps_tests_both:
  "match_op connection_pattern ''ECONNRESET <promise>COMPLETE</promise>''"
  "match_op [completion_marker] ''ECONNRESET <promise>COMPLETE</promise>''"
  unfolding match_op_lowered lowered_connection_pattern lowered_completion_marker lowered_texts
  by simp_all

text \<open>One step of each loop, for a number of passes that is not 0.\<close>

lemma sh_loop_step:
  "0 < fuel \<Longrightarrow> sh_loop fuel m outs n v =
     (if test_le (iteration v) (int m) then
        (case exited (sh_body v (outs n)) of
           Some t \<Rightarrow> ([sh_body v (outs n)], Some t)
         | None \<Rightarrow>
             (sh_body v (outs n) #
                fst (sh_loop (fuel - 1) m outs (Suc n) (vars_after (sh_body v (outs n)))),
              snd (sh_loop (fuel - 1) m outs (Suc n) (vars_after (sh_body v (outs n))))))
      else ([], Some FailedMaxIterations))"
  by (cases fuel) (simp_all add: sh_loop.simps(2) Let_def split: option.splits)

lemma ps_loop_step:
  "0 < fuel \<Longrightarrow> ps_loop fuel m outs n v =
     (if iteration v \<le> int m then
        (case exited (ps_body v (outs n)) of
           Some t \<Rightarrow> ([ps_body v (outs n)], Some t)
         | None \<Rightarrow>
             (ps_body v (outs n) #
                fst (ps_loop (fuel - 1) m outs (Suc n) (vars_after (ps_body v (outs n)))),
              snd (ps_loop (fuel - 1) m outs (Suc n) (vars_after (ps_body v (outs n))))))
      else ([], Some FailedMaxIterations))"
  by (cases fuel) (simp_all add: ps_loop.simps(2) Let_def split: option.splits)

lemmas sh_run_simps = sh_loop_step sh_body_def initial_def agent_of_def test_le_def int64_small
  sh_tests_ok sh_tests_errors sh_tests_marker sh_tests_lower

lemmas ps_run_simps = ps_loop_step ps_body_def ps_tests_lower

text \<open>The example scenario of the specification.\<close>

lemma scenario_run:
  "run Bash 5 5 (agent_of [''ok'', ''ECONNRESET''] ''<promise>COMPLETE</promise>'') =
     ([\<lparr>verdict = Continue, vars_after = \<lparr>iteration = 2, consecutive_errors = 0\<rparr>,
        slept = Some 2, exited = None\<rparr>,
       \<lparr>verdict = TransientError, vars_after = \<lparr>iteration = 2, consecutive_errors = 1\<rparr>,
        slept = Some 10, exited = None\<rparr>,
       \<lparr>verdict = Completion, vars_after = \<lparr>iteration = 2, consecutive_errors = 0\<rparr>,
        slept = None, exited = Some Succeeded\<rparr>],
      Some Succeeded)"
  by (simp add: sh_run_simps)

lemma budget_run:
  "run Bash 5 5 (agent_of [''ok''] ''ETIMEDOUT'') =
     ([\<lparr>verdict = Continue, vars_after = \<lparr>iteration = 2, consecutive_errors = 0\<rparr>,
        slept = Some 2, exited = None\<rparr>,
       \<lparr>verdict = TransientError, vars_after = \<lparr>iteration = 2, consecutive_errors = 1\<rparr>,
        slept = Some 10, exited = None\<rparr>,
       \<lparr>verdict = TransientError, vars_after = \<lparr>iteration = 2, consecutive_errors = 2\<rparr>,
        slept = Some 20, exited = None\<rparr>,
       \<lparr>verdict = TransientError, vars_after = \<lparr>iteration = 2, consecutive_errors = 3\<rparr>,
        slept = None, exited = Some FailedTooManyErrors\<rparr>],
      Some FailedTooManyErrors)"
  by (simp add: sh_run_simps)

lemma retry_run:
  "run Bash 5 4 (\<lambda>n. ''ENOTFOUND'') =
     ([\<lparr>verdict = TransientError, vars_after = \<lparr>iteration = 1, consecutive_errors = 1\<rparr>,
        slept = Some 10, exited = None\<rparr>,
       \<lparr>verdict = TransientError, vars_after = \<lparr>iteration = 1, consecutive_errors = 2\<rparr>,
        slept = Some 20, exited = None\<rparr>,
       \<lparr>verdict = TransientError, vars_after = \<lparr>iteration = 1, consecutive_errors = 3\<rparr>,
        slept = None, exited = Some FailedTooManyErrors\<rparr>],
      Some FailedTooManyErrors)"
  by (simp add: sh_run_simps)

lemma backoff_run:
  "run Bash 5 2 (agent_of [''ok'', ''ETIMEDOUT'', ''ETIMEDOUT''] ''ok'') =
     ([\<lparr>verdict = Continue, vars_after = \<lparr>iteration = 2, consecutive_errors = 0\<rparr>,
        slept = Some 2, exited = None\<rparr>,
       \<lparr>verdict = TransientError, vars_after = \<lparr>iteration = 2, consecutive_errors = 1\<rparr>,
        slept = Some 10, exited = None\<rparr>,
       \<lparr>verdict = TransientError, vars_after = \<lparr>iteration = 2, consecutive_errors = 2\<rparr>,
        slept = Some 20, exited = None\<rparr>,
       \<lparr>verdict = Continue, vars_after = \<lparr>iteration = 3, consecutive_errors = 0\<rparr>,
        slept = Some 2, exited = None\<rparr>],
      Some FailedMaxIterations)"
  by (simp add: sh_run_simps)

text \<open>
  ralph.sh with maxIterations = 2^63 - 1: every 64-bit value passes the test at the head
  of the loop, so an agent that never ends the run keeps the script in its loop.
\<close>

lemma bash_never_stops:
  assumes "\<And>k. \<not> conn_error Bash (outs k)" and "\<And>k. \<not> completed Bash (outs k)"
  shows "length (fst (run Bash fuel 9223372036854775807 outs)) = fuel \<and>
         snd (run Bash fuel 9223372036854775807 outs) = None"
  unfolding run_eq
proof (rule runs_on[where P = "\<lambda>i. - (2 ^ 63) \<le> i \<and> i < 2 ^ 63"])
  show "\<not> conn_error Bash (outs k)" and "\<not> completed Bash (outs k)" for k
    using assms by simp_all
  show "loop_test Bash 9223372036854775807 i \<and>
        (- (2 ^ 63) \<le> next_iteration Bash i \<and> next_iteration Bash i < 2 ^ 63)"
    if "- (2 ^ 63) \<le> i \<and> i < 2 ^ 63" for i
    using that int64_range[of "i + 1"] by (simp add: test_le_def)
  show "- (2 ^ 63) \<le> iteration initial \<and> iteration initial < 2 ^ 63"
    by (simp add: initial_def)
qed

section \<open>Completion\<close>

lemma completion_stops_run:
  assumes "1 \<le> k" and "k \<le> length (fst (run s fuel maxIterations outs))"
    and "\<not> conn_error s (outs (k - 1))" and "completed s (outs (k - 1))"
  shows "length (fst (run s fuel maxIterations outs)) = k \<and>
         snd (run s fuel maxIterations outs) = Some Succeeded"
proof -
  from assms(1,2) have j: "k - 1 < length (fst (run s fuel maxIterations outs))" by simp
  from run_pass_at(1)[OF j] assms(3,4)
  have "exited (fst (run s fuel maxIterations outs) ! (k - 1)) = Some Succeeded"
    by (simp add: body_exited)
  from run_exit_last[OF j this] assms(1) show ?thesis by simp
qed

text \<open>
  C1. The claim: when the k-th call of a run returns a text that does not match the
  transient-error signature and holds the completion marker, the driver makes no further
  call and exits with code 0. With each script's own tests in place of the signature
  and the marker this holds (\<open>completion_stops_run\<close>), and the tests of ralph.sh are
  those of the claim (\<open>bash_tests\<close>). ralph.ps1 breaks the claim: the output
  "connectError <promise>COMPLETE</promise>" is outside the signature and holds the
  marker; ralph.sh stops after one call with code 0, while ralph.ps1, whose \<open>-match\<close>
  ignores letter case, takes it for a connection error, calls the agent three times and
  exits with code 1.
\<close>

theorem powershell_retries_on_completed_output:
  "\<not> spec_transient_signature ''connectError <promise>COMPLETE</promise>'' \<and>
   contains completion_marker ''connectError <promise>COMPLETE</promise>'' \<and>
   run Bash 4 5 (\<lambda>n. ''connectError <promise>COMPLETE</promise>'') =
     ([\<lparr>verdict = Completion, vars_after = \<lparr>iteration = 1, consecutive_errors = 0\<rparr>,
        slept = None, exited = Some Succeeded\<rparr>], Some Succeeded) \<and>
   run PowerShell 4 5 (\<lambda>n. ''connectError <promise>COMPLETE</promise>'') =
     ([\<lparr>verdict = TransientError, vars_after = \<lparr>iteration = 1, consecutive_errors = 1\<rparr>,
        slept = Some 10, exited = None\<rparr>,
       \<lparr>verdict = TransientError, vars_after = \<lparr>iteration = 1, consecutive_errors = 2\<rparr>,
        slept = Some 20, exited = None\<rparr>,
       \<lparr>verdict = TransientError, vars_after = \<lparr>iteration = 1, consecutive_errors = 3\<rparr>,
        slept = None, exited = Some FailedTooManyErrors\<rparr>], Some FailedTooManyErrors) \<and>
   map_option exit_code (snd (run PowerShell 4 5 (\<lambda>n. ''connectError <promise>COMPLETE</promise>'')))
     = Some 1"
proof -
  have "run Bash 4 5 (\<lambda>n. ''connectError <promise>COMPLETE</promise>'') =
     ([\<lparr>verdict = Completion, vars_after = \<lparr>iteration = 1, consecutive_errors = 0\<rparr>,
        slept = None, exited = Some Succeeded\<rparr>], Some Succeeded)"
    by (simp add: sh_run_simps)
  moreover have "run PowerShell 4 5 (\<lambda>n. ''connectError <promise>COMPLETE</promise>'') =
     ([\<lparr>verdict = TransientError, vars_after = \<lparr>iteration = 1, consecutive_errors = 1\<rparr>,
        slept = Some 10, exited = None\<rparr>,
       \<lparr>verdict = TransientError, vars_after = \<lparr>iteration = 1, consecutive_errors = 2\<rparr>,
        slept = Some 20, exited = None\<rparr>,
       \<lparr>verdict = TransientError, vars_after = \<lparr>iteration = 1, consecutive_errors = 3\<rparr>,
        slept = None, exited = Some FailedTooManyErrors\<rparr>], Some FailedTooManyErrors)"
    by (simp add: ps_run_simps initial_def)
  ultimately show ?thesis
    by (simp only: signature_of_texts marker_in_texts simp_thms snd_conv option.map exit_code.simps)
qed

section \<open>The error budget\<close>

text \<open>
  C2. Three calls in a row whose outputs pass the connection-error test end the run:
  when the calls j, j + 1 and j + 2 (counted from 0) are made, however long the run is
  followed, and all three outputs match, the third one brings the counter of consecutive
  errors to 3, it is the last call of the run, and the script stops at the exit for too
  many errors with code 1.
\<close>

theorem third_error_aborts:
  assumes "j + 2 < length (fst (run s fuel maxIterations outs))"
    and "conn_error s (outs j)" and "conn_error s (outs (j + 1))" and "conn_error s (outs (j + 2))"
  shows "length (fst (run s fuel maxIterations outs)) = j + 3 \<and>
         consecutive_errors (vars_after (fst (run s fuel maxIterations outs) ! (j + 2))) = 3 \<and>
         snd (run s fuel maxIterations outs) = Some FailedTooManyErrors \<and>
         map_option exit_code (snd (run s fuel maxIterations outs)) = Some 1"
proof -
  let ?ps = "fst (run s fuel maxIterations outs)"
  let ?st = "state_before (conn_error s) (completed s) (next_iteration s) outs"
  from assms(1) have j1: "j + 1 < length ?ps" and j2: "j + 2 < length ?ps" by simp_all
  have c1: "consecutive_errors (?st (j + 1)) = consecutive_errors (?st j) + 1"
    using assms(2) by (simp add: body_errors_after)
  have c2: "consecutive_errors (?st (j + 2)) = consecutive_errors (?st j) + 2"
    using assms(3) c1 by (simp add: body_errors_after)
  have "exited (?ps ! (j + 1)) = None"
  proof (cases "exited (?ps ! (j + 1))")
    case (Some t)
    from run_exit_last(1)[OF j1 Some] assms(1) show ?thesis by simp
  qed simp
  with run_pass_at(1)[OF j1] assms(3) c1 have z: "consecutive_errors (?st j) = 0"
    by (simp add: body_exited split: if_splits)
  from run_pass_at(1)[OF j2] assms(4) c2 z
  have ex: "exited (?ps ! (j + 2)) = Some FailedTooManyErrors"
    and ce: "consecutive_errors (vars_after (?ps ! (j + 2))) = 3"
    by (simp_all add: body_exited body_errors_after)
  from run_exit_last[OF j2 ex] ce show ?thesis by simp
qed

theorem third_error_aborts_witness:
  "length (fst (run Bash 5 5 (agent_of [''ok''] ''ETIMEDOUT''))) = 4 \<and>
   consecutive_errors (vars_after (fst (run Bash 5 5 (agent_of [''ok''] ''ETIMEDOUT'')) ! 3)) = 3 \<and>
   snd (run Bash 5 5 (agent_of [''ok''] ''ETIMEDOUT'')) = Some FailedTooManyErrors \<and>
   map_option exit_code (snd (run Bash 5 5 (agent_of [''ok''] ''ETIMEDOUT''))) = Some 1"
  using third_error_aborts [of 1 Bash 5 5 "agent_of [''ok''] ''ETIMEDOUT''"]
  by (simp add: budget_run agent_of_def sh_tests_errors del: run.simps)

section \<open>The connection-error test\<close>

text \<open>
  C3. The claim: an output counts as a transient error exactly when it matches, with
  letter case respected, one of ConnectError, ETIMEDOUT, ECONNRESET, ENOTFOUND, or
  "connection refused" with a small or a capital first letter, and any other output
  without the completion marker counts as continue. ralph.sh does this
  (\<open>bash_classification\<close>). ralph.ps1 does not: its \<open>-match\<close> ignores letter case, so
  it matches every text that ralph.sh matches and more (\<open>powershell_matches_more\<close>).
  The output "connectError" (the name of a variable, say, in what the agent reports) is
  outside the signature of the specification, continues in ralph.sh, and is a transient
  error in ralph.ps1.
\<close>

theorem powershell_test_ignores_case:
  "\<not> spec_transient_signature ''connectError'' \<and>
   verdict (body_of Bash initial ''connectError'') = Continue \<and>
   verdict (body_of PowerShell initial ''connectError'') = TransientError"
  by (simp add: signature_of_texts sh_body_def ps_body_def sh_tests_lower ps_tests_lower)

section \<open>Order of the two tests\<close>

text \<open>
  C4. An output that passes the connection-error test and also holds the completion
  marker is handled as a connection error, from any state of the counters: the pass
  takes the error branch, adds one to the counter of consecutive errors, leaves the
  iteration counter alone, and either retries or stops at the exit for too many errors.
  It never takes the exit of a completed run.
\<close>

theorem error_check_precedes_completion:
  assumes "conn_error s out" and "completed s out"
  shows "verdict (body_of s v out) = TransientError \<and>
         consecutive_errors (vars_after (body_of s v out)) = consecutive_errors v + 1 \<and>
         iteration (vars_after (body_of s v out)) = iteration v \<and>
         exited (body_of s v out) =
           (if MAX_RETRIES \<le> consecutive_errors v + 1 then Some FailedTooManyErrors else None)"
  using assms
  by (simp add: body_of_eq body_verdict body_errors_after body_iteration_after body_exited)

theorem error_check_precedes_completion_witness:
  "verdict (body_of PowerShell initial ''ECONNRESET <promise>COMPLETE</promise>'') = TransientError \<and>
   consecutive_errors (vars_after (body_of PowerShell initial ''ECONNRESET <promise>COMPLETE</promise>'')) = 1 \<and>
   iteration (vars_after (body_of PowerShell initial ''ECONNRESET <promise>COMPLETE</promise>'')) = 1 \<and>
   exited (body_of PowerShell initial ''ECONNRESET <promise>COMPLETE</promise>'') = None"
  using error_check_precedes_completion
    [of PowerShell "''ECONNRESET <promise>COMPLETE</promise>''" initial]
  by (simp add: ps_tests_both initial_def)

section \<open>Retries\<close>

text \<open>
  C5. For n = 1 or n = 2: when the first call of a run is made and the first n outputs
  all pass the connection-error test, the run makes at least n calls (it is followed for
  at least n passes), and after the n-th one the iteration counter is still 1 and the
  counter of consecutive errors is n.
\<close>

theorem retry_keeps_iteration:
  assumes "0 < length (fst (run s fuel maxIterations outs))"
    and "1 \<le> n" and "n < 3" and "n \<le> fuel"
    and "\<forall>i<n. conn_error s (outs i)"
  shows "n \<le> length (fst (run s fuel maxIterations outs)) \<and>
         vars_after (fst (run s fuel maxIterations outs) ! (n - 1)) =
           \<lparr>iteration = 1, consecutive_errors = n\<rparr>"
proof -
  let ?e = "conn_error s" and ?f = "completed s"
  let ?ok = "loop_test s maxIterations" and ?inc = "next_iteration s"
  let ?ps = "fst (loop ?e ?f ?ok ?inc fuel outs 0 initial)"
  have e0: "?e (outs 0)" using assms(2,5) by simp
  from assms(1) have l0: "0 < length ?ps" by (simp add: run_eq)
  have p0: "?ps ! 0 = body ?e ?f ?inc initial (outs 0)" using pass_at(1)[OF l0] by simp
  have ok0: "?ok (iteration initial)" using pass_at(2)[OF l0] by simp
  have v0: "vars_after (?ps ! 0) = \<lparr>iteration = 1, consecutive_errors = 1\<rparr>"
    and x0: "exited (?ps ! 0) = None"
    using e0 unfolding p0 by (simp_all add: body_def initial_def)
  show ?thesis
  proof (cases "n = 1")
    case True
    with l0 v0 show ?thesis by (simp add: run_eq Suc_le_eq)
  next
    case False
    with assms(2,3) have n: "n = 2" by simp
    with assms(5) have e1: "?e (outs 1)" by simp
    from ok0 v0 have "?ok (iteration (vars_after (?ps ! 0)))" by (simp add: initial_def)
    from next_pass[OF l0 x0 this] n assms(4) have l1: "Suc 0 < length ?ps" by simp
    have p1: "?ps ! Suc 0 = body ?e ?f ?inc (state_before ?e ?f ?inc outs (Suc 0)) (outs (Suc 0))"
      by (rule pass_at(1)[OF l1])
    have "vars_after (?ps ! Suc 0) = \<lparr>iteration = 1, consecutive_errors = 2\<rparr>"
      using e0 e1 unfolding p1 by (simp add: body_def initial_def)
    with l1 n show ?thesis by (simp add: run_eq Suc_le_eq numeral_2_eq_2)
  qed
qed

theorem retry_keeps_iteration_witness:
  "2 \<le> length (fst (run Bash 5 4 (\<lambda>n. ''ENOTFOUND''))) \<and>
   vars_after (fst (run Bash 5 4 (\<lambda>n. ''ENOTFOUND'')) ! 1) =
     \<lparr>iteration = 1, consecutive_errors = 2\<rparr>"
  using retry_keeps_iteration [of Bash 5 4 "\<lambda>n. ''ENOTFOUND''" 2]
  by (simp add: retry_run sh_tests_errors del: run.simps)

lemma error_counter_resets:
  assumes "Suc j < length (fst (run s fuel maxIterations outs))"
    and "\<not> conn_error s (outs (Suc j))"
  shows "consecutive_errors (vars_after (fst (run s fuel maxIterations outs) ! Suc j)) = 0"
  using run_pass_at(1)[OF assms(1)] assms(2) by (simp add: body_errors_after)

lemma abort_needs_three_errors:
  assumes "snd (run s fuel maxIterations outs) = Some FailedTooManyErrors"
  shows "3 \<le> length (fst (run s fuel maxIterations outs)) \<and>
         conn_error s (outs (length (fst (run s fuel maxIterations outs)) - 3)) \<and>
         conn_error s (outs (length (fst (run s fuel maxIterations outs)) - 2)) \<and>
         conn_error s (outs (length (fst (run s fuel maxIterations outs)) - 1))"
proof -
  let ?ps = "fst (run s fuel maxIterations outs)"
  let ?st = "state_before (conn_error s) (completed s) (next_iteration s) outs"
  have ne: "?ps \<noteq> []"
  proof
    assume "?ps = []"
    then have "snd (run s fuel maxIterations outs) \<noteq> Some FailedTooManyErrors"
      unfolding run_eq
      by (cases fuel; cases "loop_test s maxIterations (iteration initial)";
          cases "exited (body (conn_error s) (completed s) (next_iteration s) initial (outs 0))")
         (simp_all add: loop_stop loop_exit loop_next)
    with assms show False by simp
  qed
  define l where "l = length ?ps - 1"
  from ne have l: "l < length ?ps" and L: "length ?ps = Suc l" by (simp_all add: l_def)
  have "exited (?ps ! l) = Some FailedTooManyErrors"
  proof (cases "exited (?ps ! l)")
    case None
    from run_no_exit_last[OF L[symmetric] None] assms show ?thesis by simp
  next
    case (Some t')
    from run_exit_last(2)[OF l Some] assms Some show ?thesis by simp
  qed
  with run_pass_at(1)[OF l] have el: "conn_error s (outs l)"
    and c: "2 \<le> consecutive_errors (?st l)"
    by (simp_all add: body_exited split: if_splits)
  from c have "0 < consecutive_errors (?st l)" and "1 < consecutive_errors (?st l)" by simp_all
  from errors_streak[OF this(1)] errors_streak[OF this(2)]
  have l2: "1 < l" and e1: "conn_error s (outs (l - 1))" and e2: "conn_error s (outs (l - 2))"
    by (simp_all add: numeral_2_eq_2)
  from L have idx: "length ?ps - 3 = l - 2" "length ?ps - 2 = l - 1" "length ?ps - 1 = l"
    by simp_all
  from L l2 have "3 \<le> length ?ps" by simp
  with e2 e1 el show ?thesis by (simp only: idx)
qed

text \<open>
  C6. The claim: when the counter of consecutive errors stands at 1 or 2 and the next
  output does not match the transient-error signature, the counter is set to 0, and a
  later abort needs three matching outputs in a row again. With each script's own test
  in place of the signature this holds (\<open>error_counter_resets\<close>,
  \<open>abort_needs_three_errors\<close>). ralph.ps1 breaks the claim: after "ECONNRESET" has set
  the counter to 1, the output "connectError", which does not match the signature,
  raises the counter to 2 and then to 3, and the run stops for too many errors on a
  streak of which one output matches. ralph.sh resets the counter and continues.
\<close>

theorem powershell_keeps_counting_errors:
  "\<not> spec_transient_signature ''connectError'' \<and>
   run Bash 4 2 (agent_of [''ECONNRESET''] ''connectError'') =
     ([\<lparr>verdict = TransientError, vars_after = \<lparr>iteration = 1, consecutive_errors = 1\<rparr>,
        slept = Some 10, exited = None\<rparr>,
       \<lparr>verdict = Continue, vars_after = \<lparr>iteration = 2, consecutive_errors = 0\<rparr>,
        slept = Some 2, exited = None\<rparr>,
       \<lparr>verdict = Continue, vars_after = \<lparr>iteration = 3, consecutive_errors = 0\<rparr>,
        slept = Some 2, exited = None\<rparr>], Some FailedMaxIterations) \<and>
   run PowerShell 4 2 (agent_of [''ECONNRESET''] ''connectError'') =
     ([\<lparr>verdict = TransientError, vars_after = \<lparr>iteration = 1, consecutive_errors = 1\<rparr>,
        slept = Some 10, exited = None\<rparr>,
       \<lparr>verdict = TransientError, vars_after = \<lparr>iteration = 1, consecutive_errors = 2\<rparr>,
        slept = Some 20, exited = None\<rparr>,
       \<lparr>verdict = TransientError, vars_after = \<lparr>iteration = 1, consecutive_errors = 3\<rparr>,
        slept = None, exited = Some FailedTooManyErrors\<rparr>], Some FailedTooManyErrors)"
  by (simp add: signature_of_texts sh_run_simps ps_run_simps)

section \<open>Running out of iterations\<close>

text \<open>
  The claim C7 as it stands fails in three places. For maxIterations = 2^63 ralph.sh
  makes no call at all: the test at the head of its loop refuses the number. For
  maxIterations = 2^63 - 1 and an agent that prints "ok", ralph.sh has made 2^63 calls
  and is still in its loop. And ralph.ps1 with maxIterations = 2 exits with code 0 after
  one call on the output "<promise>complete</promise>", which is outside the signature
  and does not hold the marker.
\<close>

theorem max_iterations_counterexample:
  "\<not> spec_transient_signature ''ok'' \<and> \<not> contains completion_marker ''ok'' \<and>
   run Bash 3 9223372036854775808 (\<lambda>n. ''ok'') = ([], Some FailedMaxIterations) \<and>
   length (fst (run Bash 9223372036854775808 9223372036854775807 (\<lambda>n. ''ok'')))
     = 9223372036854775808 \<and>
   snd (run Bash 9223372036854775808 9223372036854775807 (\<lambda>n. ''ok'')) = None \<and>
   \<not> spec_transient_signature ''<promise>complete</promise>'' \<and>
   \<not> contains completion_marker ''<promise>complete</promise>'' \<and>
   run PowerShell 3 2 (\<lambda>n. ''<promise>complete</promise>'') =
     ([\<lparr>verdict = Completion, vars_after = \<lparr>iteration = 1, consecutive_errors = 0\<rparr>,
        slept = None, exited = Some Succeeded\<rparr>], Some Succeeded)"
proof -
  have "run Bash 3 9223372036854775808 (\<lambda>n. ''ok'') = ([], Some FailedMaxIterations)"
    by (simp add: sh_loop_step test_le_def initial_def)
  moreover have "length (fst (run Bash 9223372036854775808 9223372036854775807 (\<lambda>n. ''ok'')))
      = 9223372036854775808 \<and>
    snd (run Bash 9223372036854775808 9223372036854775807 (\<lambda>n. ''ok'')) = None"
    by (rule bash_never_stops) (simp_all add: sh_tests_ok)
  moreover have "run PowerShell 3 2 (\<lambda>n. ''<promise>complete</promise>'') =
     ([\<lparr>verdict = Completion, vars_after = \<lparr>iteration = 1, consecutive_errors = 0\<rparr>,
        slept = None, exited = Some Succeeded\<rparr>], Some Succeeded)"
    by (simp add: ps_run_simps initial_def)
  ultimately show ?thesis
    by (simp only: signature_of_texts marker_in_texts simp_thms)
qed

text \<open>
  C7, amended. For every maxIterations in the range of the script (below 2^63 - 1 for
  ralph.sh, an Int32 for ralph.ps1): when no output ever passes the connection-error
  test or the completion test of the script, a run followed for more than maxIterations
  passes makes exactly maxIterations calls, every pass takes the branch that continues
  and adds one to the iteration counter (it is j + 2 after the pass j, counted from 0),
  and the script ends behind the loop with code 1 and the message that the iterations
  are used up. Nothing is said of ralph.ps1 on an output that passes its tests only
  because they ignore letter case.
\<close>

theorem max_iterations_exhausted:
  assumes "in_range s maxIterations"
    and "\<forall>n. \<not> conn_error s (outs n) \<and> \<not> completed s (outs n)"
    and "maxIterations < fuel"
  shows "length (fst (run s fuel maxIterations outs)) = maxIterations \<and>
         (\<forall>j<maxIterations.
            verdict (fst (run s fuel maxIterations outs) ! j) = Continue \<and>
            vars_after (fst (run s fuel maxIterations outs) ! j) =
              \<lparr>iteration = int j + 2, consecutive_errors = 0\<rparr>) \<and>
         snd (run s fuel maxIterations outs) = Some FailedMaxIterations \<and>
         map_option exit_code (snd (run s fuel maxIterations outs)) = Some 1 \<and>
         map_option final_message (snd (run s fuel maxIterations outs)) =
           Some ''Ralph reached max iterations''"
proof -
  have "run s fuel maxIterations outs =
     (map (\<lambda>i. \<lparr>verdict = Continue,
                vars_after = \<lparr>iteration = i + 1, consecutive_errors = 0\<rparr>,
                slept = Some 2, exited = None\<rparr>) [iteration initial .. int maxIterations],
      Some FailedMaxIterations)"
    unfolding run_eq
  proof (rule all_continue)
    show "\<not> conn_error s (outs k)" and "\<not> completed s (outs k)" for k
      using assms(2) by simp_all
    show "loop_test s maxIterations i \<and> next_iteration s i = i + 1"
      if "1 \<le> i" "i \<le> int maxIterations" for i
      using counts_in_range(1)[OF assms(1) that] .
    show "\<not> loop_test s maxIterations (int maxIterations + 1)"
      using counts_in_range(2)[OF assms(1)] .
    show "1 \<le> iteration initial" "iteration initial \<le> int maxIterations + 1"
      "nat (int maxIterations + 1 - iteration initial) < fuel"
      using assms(3) by (simp_all add: initial_def)
  qed
  then show ?thesis by (simp add: initial_def)
qed

theorem max_iterations_exhausted_witness:
  "length (fst (run Bash 4 3 (\<lambda>n. ''ok''))) = 3 \<and>
   vars_after (fst (run Bash 4 3 (\<lambda>n. ''ok'')) ! 2) = \<lparr>iteration = 4, consecutive_errors = 0\<rparr> \<and>
   snd (run Bash 4 3 (\<lambda>n. ''ok'')) = Some FailedMaxIterations \<and>
   map_option exit_code (snd (run Bash 4 3 (\<lambda>n. ''ok''))) = Some 1 \<and>
   map_option final_message (snd (run Bash 4 3 (\<lambda>n. ''ok''))) = Some ''Ralph reached max iterations''"
  using max_iterations_exhausted [of Bash 3 "\<lambda>n. ''ok''" 4]
  by (simp add: sh_tests_ok del: run.simps)

section \<open>Backoff\<close>

text \<open>
  C8. The wait before a retry grows with the position in the streak: when the pass j of
  a run ends a streak of exactly i matching outputs, for i = 1 or i = 2 (the outputs
  j - i + 1 to j match, and the one before them, if there is one, does not), the pass
  sleeps RETRY_DELAY * i seconds, that is 10 and then 20.
\<close>

theorem backoff_is_linear:
  assumes "j < length (fst (run s fuel maxIterations outs))"
    and "i = 1 \<or> i = 2" and "i \<le> Suc j"
    and "\<forall>k<i. conn_error s (outs (j - k))"
    and "i \<le> j \<longrightarrow> \<not> conn_error s (outs (j - i))"
  shows "slept (fst (run s fuel maxIterations outs) ! j) = Some (RETRY_DELAY * i)"
proof -
  let ?st = "state_before (conn_error s) (completed s) (next_iteration s) outs"
  have zero: "consecutive_errors (?st k) = 0" if "k = 0 \<or> \<not> conn_error s (outs (k - 1))" for k
    using that by (cases k) (simp_all add: initial_def body_errors_after)
  from assms(2) have "0 < i" by auto
  with assms(4) have "conn_error s (outs (j - 0))" by blast
  then have ej: "conn_error s (outs j)" by simp
  have "consecutive_errors (?st j) = i - 1"
  proof (cases "i = 1")
    case True
    with assms(5) have "j = 0 \<or> \<not> conn_error s (outs (j - 1))" by auto
    from zero[OF this] True show ?thesis by simp
  next
    case False
    with assms(2) have i: "i = 2" by simp
    with assms(3) obtain j' where j': "j = Suc j'" by (cases j) simp_all
    from i have "1 < i" by simp
    with assms(4) have "conn_error s (outs (j - 1))" by blast
    with j' have e': "conn_error s (outs j')" by simp
    from i assms(5) j' have "j' = 0 \<or> \<not> conn_error s (outs (j' - 1))" by (cases j') auto
    from zero[OF this] e' j' i show ?thesis by (simp add: body_errors_after)
  qed
  with run_pass_at(1)[OF assms(1)] ej assms(2) show ?thesis
    by (auto simp add: body_slept)
qed

theorem backoff_is_linear_witness:
  "slept (fst (run Bash 5 2 (agent_of [''ok'', ''ETIMEDOUT'', ''ETIMEDOUT''] ''ok'')) ! 2) = Some 20"
  using backoff_is_linear [of 2 Bash 5 2 "agent_of [''ok'', ''ETIMEDOUT'', ''ETIMEDOUT''] ''ok''" 2]
  by (simp add: backoff_run agent_of_def sh_tests_ok sh_tests_errors less_2_cases_iff
        all_conj_distrib del: run.simps)

section \<open>The two scripts side by side\<close>

lemma same_loop:
  assumes "\<And>k. err (outs k) = err' (outs k)" and "\<And>k. fin (outs k) = fin' (outs k)"
    and cnt: "\<And>i. 1 \<le> i \<Longrightarrow> i \<le> int m \<Longrightarrow> ok i \<and> inc i = i + 1"
    and stop: "\<not> ok (int m + 1)"
    and cnt': "\<And>i. 1 \<le> i \<Longrightarrow> i \<le> int m \<Longrightarrow> ok' i \<and> inc' i = i + 1"
    and stop': "\<not> ok' (int m + 1)"
    and "1 \<le> iteration v" and "iteration v \<le> int m + 1"
  shows "loop err fin ok inc fuel outs n v = loop err' fin' ok' inc' fuel outs n v"
  using assms(7,8)
proof (induction fuel arbitrary: n v)
  case 0
  show ?case by simp
next
  case (Suc f)
  show ?case
  proof (cases "iteration v \<le> int m")
    case False
    with Suc.prems(2) have "iteration v = int m + 1" by simp
    with stop stop' have "\<not> ok (iteration v)" "\<not> ok' (iteration v)" by simp_all
    then show ?thesis by (simp add: loop_stop)
  next
    case True
    from cnt[OF Suc.prems(1) True] cnt'[OF Suc.prems(1) True]
    have ok: "ok (iteration v)" "ok' (iteration v)"
      and inc: "inc (iteration v) = iteration v + 1" "inc' (iteration v) = iteration v + 1"
      by simp_all
    have b: "body err fin inc v (outs n) = body err' fin' inc' v (outs n)"
      using assms(1,2) inc by (simp add: body_def)
    show ?thesis
    proof (cases "exited (body err fin inc v (outs n))")
      case (Some t)
      with ok b show ?thesis by (simp add: loop_exit)
    next
      case None
      let ?v = "vars_after (body err fin inc v (outs n))"
      have "1 \<le> iteration ?v" and "iteration ?v \<le> int m + 1"
        using Suc.prems(1) True inc by (simp_all add: body_iteration_after)
      from Suc.IH[OF this, of "Suc n"] None b
        loop_next[where ok=ok and v=v and outs=outs and n=n and f=f and err=err and fin=fin
          and inc=inc, OF ok(1) None]
        loop_next[where ok=ok' and v=v and outs=outs and n=n and f=f and err=err' and fin=fin'
          and inc=inc', OF ok(2)]
      show ?thesis by simp
    qed
  qed
qed

lemma scripts_agree_where_tests_agree:
  assumes "\<And>k. conn_error Bash (outs k) = conn_error PowerShell (outs k)"
    and "\<And>k. completed Bash (outs k) = completed PowerShell (outs k)"
    and "in_range Bash m" and "in_range PowerShell m"
  shows "run Bash fuel m outs = run PowerShell fuel m outs"
  unfolding run_eq
proof (rule same_loop)
  show "conn_error Bash (outs k) = conn_error PowerShell (outs k)"
    and "completed Bash (outs k) = completed PowerShell (outs k)" for k
    using assms(1,2) by simp_all
  show "loop_test Bash m i \<and> next_iteration Bash i = i + 1" if "1 \<le> i" "i \<le> int m" for i
    using counts_in_range(1)[OF assms(3) that] .
  show "loop_test PowerShell m i \<and> next_iteration PowerShell i = i + 1"
    if "1 \<le> i" "i \<le> int m" for i
    using counts_in_range(1)[OF assms(4) that] .
  show "\<not> loop_test Bash m (int m + 1)" using counts_in_range(2)[OF assms(3)] .
  show "\<not> loop_test PowerShell m (int m + 1)" using counts_in_range(2)[OF assms(4)] .
  show "1 \<le> iteration initial" "iteration initial \<le> int m + 1" by (simp_all add: initial_def)
qed

text \<open>
  C9. The claim: for every sequence of agent outputs and every maxIterations, ralph.sh and
  ralph.ps1 classify each output alike, pass through the same counters and end with the
  same exit code. Where maxIterations is in the range of both scripts and their tests
  agree on every output, the runs are the same (\<open>scripts_agree_where_tests_agree\<close>);
  the tests do not agree. On an agent that prints the completion marker in small
  letters, with maxIterations = 1, ralph.sh continues and ends behind the loop with
  code 1, while ralph.ps1 takes the text for the marker and exits with code 0. On an
  agent that prints "connectError", ralph.sh spends its one iteration and ends behind
  the loop, while ralph.ps1 retries twice and stops for too many errors.
\<close>

theorem scripts_diverge_on_letter_case:
  "run Bash 4 1 (\<lambda>n. ''<promise>complete</promise>'') =
     ([\<lparr>verdict = Continue, vars_after = \<lparr>iteration = 2, consecutive_errors = 0\<rparr>,
        slept = Some 2, exited = None\<rparr>], Some FailedMaxIterations) \<and>
   run PowerShell 4 1 (\<lambda>n. ''<promise>complete</promise>'') =
     ([\<lparr>verdict = Completion, vars_after = \<lparr>iteration = 1, consecutive_errors = 0\<rparr>,
        slept = None, exited = Some Succeeded\<rparr>], Some Succeeded) \<and>
   map_option exit_code (snd (run Bash 4 1 (\<lambda>n. ''<promise>complete</promise>''))) = Some 1 \<and>
   map_option exit_code (snd (run PowerShell 4 1 (\<lambda>n. ''<promise>complete</promise>''))) = Some 0 \<and>
   run Bash 4 1 (\<lambda>n. ''connectError'') =
     ([\<lparr>verdict = Continue, vars_after = \<lparr>iteration = 2, consecutive_errors = 0\<rparr>,
        slept = Some 2, exited = None\<rparr>], Some FailedMaxIterations) \<and>
   run PowerShell 4 1 (\<lambda>n. ''connectError'') =
     ([\<lparr>verdict = TransientError, vars_after = \<lparr>iteration = 1, consecutive_errors = 1\<rparr>,
        slept = Some 10, exited = None\<rparr>,
       \<lparr>verdict = TransientError, vars_after = \<lparr>iteration = 1, consecutive_errors = 2\<rparr>,
        slept = Some 20, exited = None\<rparr>,
       \<lparr>verdict = TransientError, vars_after = \<lparr>iteration = 1, consecutive_errors = 3\<rparr>,
        slept = None, exited = Some FailedTooManyErrors\<rparr>], Some FailedTooManyErrors)"
  by (simp add: sh_run_simps ps_run_simps)

section \<open>Termination within three calls per iteration\<close>

text \<open>
  The claim C10 as it stands fails for ralph.sh at maxIterations = 2^63 - 1, the largest
  64-bit integer: on an agent that prints "ok" the run has made 3 * maxIterations + 1
  calls and the script is still in its loop.
\<close>

theorem bash_runs_on_at_largest_integer:
  "length (fst (run Bash 27670116110564327422 9223372036854775807 (\<lambda>n. ''ok'')))
     = 27670116110564327422 \<and>
   snd (run Bash 27670116110564327422 9223372036854775807 (\<lambda>n. ''ok'')) = None"
  by (rule bash_never_stops) (simp_all add: sh_tests_ok)

text \<open>
  C10, amended. For every maxIterations in the range of the script (below 2^63 - 1 for
  ralph.sh, an Int32 for ralph.ps1) and every endless sequence of agent outputs, a run
  of either script ends at one of its exits after at most 3 * maxIterations calls of the
  agent: followed for more than 3 * maxIterations passes, it names its exit. A call that
  does not end the run either adds one to the iteration counter or is one of at most
  two retries at an unchanged iteration counter.
\<close>

theorem run_terminates_within_bound:
  assumes "in_range s maxIterations" and "3 * maxIterations < fuel"
  shows "\<exists>ps t. run s fuel maxIterations outs = (ps, Some t) \<and> length ps \<le> 3 * maxIterations"
proof -
  let ?r = "loop (conn_error s) (completed s) (loop_test s maxIterations) (next_iteration s)
              fuel outs 0 initial"
  have "snd ?r \<noteq> None \<and>
        length (fst ?r) \<le> 3 * nat (int maxIterations + 1 - iteration initial)
                            - consecutive_errors initial"
  proof (rule loop_bound)
    show "loop_test s maxIterations i \<and> next_iteration s i = i + 1"
      if "1 \<le> i" "i \<le> int maxIterations" for i
      using counts_in_range(1)[OF assms(1) that] .
    show "\<not> loop_test s maxIterations (int maxIterations + 1)"
      using counts_in_range(2)[OF assms(1)] .
    show "consecutive_errors initial < MAX_RETRIES" "1 \<le> iteration initial"
      "iteration initial \<le> int maxIterations + 1"
      "3 * nat (int maxIterations + 1 - iteration initial) - consecutive_errors initial < fuel"
      using assms(2) by (simp_all add: initial_def)
  qed
  then have "snd (run s fuel maxIterations outs) \<noteq> None"
    and "length (fst (run s fuel maxIterations outs)) \<le> 3 * maxIterations"
    by (simp_all add: run_eq initial_def)
  then show ?thesis
    by (cases "run s fuel maxIterations outs") auto
qed

theorem run_terminates_within_bound_witness:
  "\<exists>ps t. run Bash 10 3 (agent_of [''ok''] ''ETIMEDOUT'') = (ps, Some t) \<and> length ps \<le> 9"
  using run_terminates_within_bound [of Bash 3 10 "agent_of [''ok''] ''ETIMEDOUT''"]
  by (simp del: run.simps)

end
